theory Spec2Isabelle
  imports Main "HOL-Library.Sublist" "HOL-Library.Word"
begin

section \<open>The credential-trial pipeline of sqlblaster.go\<close>

text \<open>
  Go strings are byte sequences; they are modelled as \<^typ>\<open>string\<close> (a list of 8-bit
  characters). A channel that a goroutine fills and then closes is modelled as the list
  of the values sent on it, in the order of the sends. The file system is a partial map
  from file names to file contents: \<open>None\<close> is the case where \<open>os.Open\<close> returns an
  error.
\<close>

type_synonym fs = "string \<Rightarrow> string option"

subsection \<open>Library functions used by the streams\<close>

text \<open>
  \<open>strings.TrimSpace\<close> removes leading and trailing white space as defined by Unicode
  (\<open>unicode.IsSpace\<close>). On the bytes of the string this removes, at each end, the UTF-8
  encodings of the white-space runes: U+0009 to U+000D, U+0020, U+0085, U+00A0, U+1680,
  U+2000 to U+200A, U+2028, U+2029, U+202F, U+205F and U+3000.
\<close>

definition spaceRunes :: "string list" where
  "spaceRunes =
    [[CHR 0x09], [CHR 0x0A], [CHR 0x0B], [CHR 0x0C], [CHR 0x0D], [CHR 0x20],
     [CHR 0xC2, CHR 0x85], [CHR 0xC2, CHR 0xA0],
     [CHR 0xE1, CHR 0x9A, CHR 0x80],
     [CHR 0xE2, CHR 0x80, CHR 0x80], [CHR 0xE2, CHR 0x80, CHR 0x81],
     [CHR 0xE2, CHR 0x80, CHR 0x82], [CHR 0xE2, CHR 0x80, CHR 0x83],
     [CHR 0xE2, CHR 0x80, CHR 0x84], [CHR 0xE2, CHR 0x80, CHR 0x85],
     [CHR 0xE2, CHR 0x80, CHR 0x86], [CHR 0xE2, CHR 0x80, CHR 0x87],
     [CHR 0xE2, CHR 0x80, CHR 0x88], [CHR 0xE2, CHR 0x80, CHR 0x89],
     [CHR 0xE2, CHR 0x80, CHR 0x8A],
     [CHR 0xE2, CHR 0x80, CHR 0xA8], [CHR 0xE2, CHR 0x80, CHR 0xA9],
     [CHR 0xE2, CHR 0x80, CHR 0xAF],
     [CHR 0xE2, CHR 0x81, CHR 0x9F],
     [CHR 0xE3, CHR 0x80, CHR 0x80]]"

function trimLeftSpace :: "string \<Rightarrow> string" where
  "trimLeftSpace s =
     (case find (\<lambda>t. prefix t s) spaceRunes of
        None \<Rightarrow> s
      | Some t \<Rightarrow> trimLeftSpace (drop (length t) s))"
  by pat_completeness auto
termination
proof (relation "measure length")
  show "wf (measure length)" by simp
next
  fix s t assume "find (\<lambda>t. prefix t s) spaceRunes = Some t"
  then have "t \<in> set spaceRunes" and "prefix t s"
    by (auto simp: find_Some_iff)
  then have "t \<noteq> []" and "length t \<le> length s"
    by (auto simp: spaceRunes_def prefix_length_le)
  then show "(drop (length t) s, s) \<in> measure length"
    by (cases t) auto
qed

function trimRightSpace :: "string \<Rightarrow> string" where
  "trimRightSpace s =
     (case find (\<lambda>t. suffix t s) spaceRunes of
        None \<Rightarrow> s
      | Some t \<Rightarrow> trimRightSpace (take (length s - length t) s))"
  by pat_completeness auto
termination
proof (relation "measure length")
  show "wf (measure length)" by simp
next
  fix s t assume "find (\<lambda>t. suffix t s) spaceRunes = Some t"
  then have "t \<in> set spaceRunes" and "suffix t s"
    by (auto simp: find_Some_iff)
  then have "t \<noteq> []" and "length t \<le> length s"
    by (auto simp: spaceRunes_def suffix_length_le)
  then show "(take (length s - length t) s, s) \<in> measure length"
    by (cases t) auto
qed

declare trimLeftSpace.simps [simp del] trimRightSpace.simps [simp del]

definition TrimSpace :: "string \<Rightarrow> string" where
  "TrimSpace s = trimRightSpace (trimLeftSpace s)"

text \<open>
  \<open>bufio.Scanner\<close> with the default split function \<open>bufio.ScanLines\<close>: every call of
  \<open>Scan\<close> delivers the bytes up to the next newline, without the newline and without one
  trailing carriage return; a last line without a newline is delivered when it is not
  empty. The scanner's buffer holds at most \<open>bufio.MaxScanTokenSize\<close> bytes: when a line
  does not fit, \<open>Scan\<close> returns false (\<open>scanner.Err()\<close> is \<open>ErrTooLong\<close>) and the loop
  over the file ends there. \<open>scanFrom cur rest\<close> holds in \<open>cur\<close> the bytes of the current
  line read so far. Read errors of the operating system are not modelled.
\<close>

definition MaxScanTokenSize :: nat where
  "MaxScanTokenSize = 65536"

definition dropCR :: "string \<Rightarrow> string" where
  "dropCR data = (if data \<noteq> [] \<and> last data = CHR 0x0D then butlast data else data)"

fun scanFrom :: "string \<Rightarrow> string \<Rightarrow> string list" where
  "scanFrom cur [] = (if cur = [] then [] else [dropCR cur])"
| "scanFrom cur (c # cs) =
     (if c = CHR 0x0A then dropCR cur # scanFrom [] cs
      else if MaxScanTokenSize \<le> length cur + 1 then []
      else scanFrom (cur @ [c]) cs)"

definition scanLines :: "string \<Rightarrow> string list" where
  "scanLines content = scanFrom [] content"

text \<open>
  The lines of a file as the specification has them: the pieces of the content between
  newlines, a last piece without a newline counting when it is not empty. The scanner does
  not deliver all of them: \<open>linesBeforeLong\<close> are the lines that come before the first
  line of \<open>bufio.MaxScanTokenSize\<close> bytes or more.
\<close>

fun linesFrom :: "string \<Rightarrow> string \<Rightarrow> string list" where
  "linesFrom cur [] = (if cur = [] then [] else [cur])"
| "linesFrom cur (c # cs) =
     (if c = CHR 0x0A then cur # linesFrom [] cs else linesFrom (cur @ [c]) cs)"

definition fileLines :: "string \<Rightarrow> string list" where
  "fileLines content = linesFrom [] content"

definition linesBeforeLong :: "string \<Rightarrow> string list" where
  "linesBeforeLong content = takeWhile (\<lambda>l. length l < MaxScanTokenSize) (fileLines content)"

subsection \<open>Configuration and checkpoint\<close>

text \<open>
  The fields of \<open>Config\<close> that the pipeline reads; the other fields (host, port, TLS,
  follow-on actions) concern only \<open>testLogin\<close>. \<open>Workers\<close> is the capacity of the
  semaphore channel, a natural number: \<open>make\<close> panics on a negative capacity. The dump
  mode, which returns from \<open>performTesting\<close> before the streams are built, is not part
  of the model.
\<close>

record Config =
  SingleUser :: string
  UserList :: string
  SinglePass :: string
  PassList :: string
  FirstOnly :: bool
  UserFirst :: bool
  Workers :: nat

record State =
  LastUser :: string
  LastPass :: string

record Credential =
  user :: string
  pass :: string

subsection \<open>Source streams\<close>

definition singleValueChannel :: "string \<Rightarrow> string list" where
  "singleValueChannel v = [v]"

text \<open>The loop \<open>for scanner.Scan()\<close> of \<open>streamLinesFromFile\<close>.\<close>

fun streamLoop :: "string list \<Rightarrow> string list" where
  "streamLoop [] = []"
| "streamLoop (t # ts) =
     (let line = TrimSpace t
      in if line \<noteq> [] then line # streamLoop ts else streamLoop ts)"

definition streamLinesFromFile :: "fs \<Rightarrow> string \<Rightarrow> string list" where
  "streamLinesFromFile files filename =
     (case files filename of
        None \<Rightarrow> []
      | Some content \<Rightarrow> streamLoop (scanLines content))"

text \<open>
  The loop of \<open>resumeStreamFromFile\<close>; the flag \<open>foundLast\<close> is the loop's state.
\<close>

fun resumeLoop :: "string \<Rightarrow> bool \<Rightarrow> string list \<Rightarrow> string list" where
  "resumeLoop lastValue foundLast [] = []"
| "resumeLoop lastValue foundLast (t # ts) =
     (let line = TrimSpace t
      in if line = [] then resumeLoop lastValue foundLast ts
         else if foundLast then line # resumeLoop lastValue foundLast ts
         else if line = lastValue then resumeLoop lastValue True ts
         else resumeLoop lastValue foundLast ts)"

definition resumeStreamFromFile :: "fs \<Rightarrow> string \<Rightarrow> string \<Rightarrow> string list" where
  "resumeStreamFromFile files filename lastValue =
     (case files filename of
        None \<Rightarrow> []
      | Some content \<Rightarrow> resumeLoop lastValue (lastValue = []) (scanLines content))"

text \<open>
  The choice of the two streams in \<open>performTesting\<close>. The argument \<open>st\<close> is
  \<open>Some state\<close> when \<open>resume && fileExists("state.json")\<close> holds, with \<open>state\<close> the
  value of \<open>loadState()\<close>, and \<open>None\<close> otherwise.
\<close>

definition userChan :: "fs \<Rightarrow> Config \<Rightarrow> State option \<Rightarrow> string list" where
  "userChan files cfg st =
     (if SingleUser cfg \<noteq> [] then singleValueChannel (SingleUser cfg)
      else (case st of
              Some state \<Rightarrow> resumeStreamFromFile files (UserList cfg) (LastUser state)
            | None \<Rightarrow> streamLinesFromFile files (UserList cfg)))"

definition passChan :: "fs \<Rightarrow> Config \<Rightarrow> State option \<Rightarrow> string list" where
  "passChan files cfg st =
     (if SinglePass cfg \<noteq> [] then singleValueChannel (SinglePass cfg)
      else if PassList cfg \<noteq> [] then
        (case st of
           Some state \<Rightarrow> resumeStreamFromFile files (PassList cfg) (LastPass state)
         | None \<Rightarrow> streamLinesFromFile files (PassList cfg))
      else singleValueChannel [])"

subsection \<open>Pair generator\<close>

text \<open>
  \<open>buildCredentialPairs\<close> first drains the user channel into a slice. With
  \<open>userFirst\<close> it also drains the password channel and runs the password loop inside
  the user loop; otherwise it runs the user loop inside the loop over the password
  channel. Each \<open>credChan <- Credential{u, p}\<close> adds one element to the result.
\<close>

fun sendPasswords :: "string \<Rightarrow> string list \<Rightarrow> Credential list" where
  "sendPasswords u [] = []"
| "sendPasswords u (p # ps) = \<lparr>user = u, pass = p\<rparr> # sendPasswords u ps"

fun sendUsers :: "string list \<Rightarrow> string \<Rightarrow> Credential list" where
  "sendUsers [] p = []"
| "sendUsers (u # us) p = \<lparr>user = u, pass = p\<rparr> # sendUsers us p"

fun userFirstLoop :: "string list \<Rightarrow> string list \<Rightarrow> Credential list" where
  "userFirstLoop [] passwords = []"
| "userFirstLoop (u # us) passwords = sendPasswords u passwords @ userFirstLoop us passwords"

fun passFirstLoop :: "string list \<Rightarrow> string list \<Rightarrow> Credential list" where
  "passFirstLoop users [] = []"
| "passFirstLoop users (p # ps) = sendUsers users p @ passFirstLoop users ps"

definition buildCredentialPairs :: "string list \<Rightarrow> string list \<Rightarrow> bool \<Rightarrow> Credential list" where
  "buildCredentialPairs users passwords userFirst =
     (if userFirst then userFirstLoop users passwords
      else passFirstLoop users passwords)"

subsection \<open>Progress estimate\<close>

text \<open>
  \<open>countLines\<close> and \<open>totalTests\<close> are Go \<open>int\<close>s, 64 bits wide on the 64-bit platforms;
  \<open>count++\<close> and the product wrap around. \<^term>\<open>sint\<close> reads the signed value.
\<close>

fun countLoop :: "64 word \<Rightarrow> string list \<Rightarrow> 64 word" where
  "countLoop count [] = count"
| "countLoop count (t # ts) =
     countLoop (if TrimSpace t \<noteq> [] then count + 1 else count) ts"

definition countLines :: "fs \<Rightarrow> string \<Rightarrow> 64 word" where
  "countLines files filename =
     (case files filename of
        None \<Rightarrow> 0
      | Some content \<Rightarrow> countLoop 0 (scanLines content))"

definition totalTests :: "fs \<Rightarrow> Config \<Rightarrow> 64 word" where
  "totalTests files cfg =
     (if SingleUser cfg \<noteq> [] then
        (if SinglePass cfg \<noteq> [] then 1
         else if PassList cfg \<noteq> [] then countLines files (PassList cfg)
         else 1)
      else if UserList cfg \<noteq> [] then
        (let userCount = countLines files (UserList cfg)
         in if SinglePass cfg \<noteq> [] then userCount
            else if PassList cfg \<noteq> [] then userCount * countLines files (PassList cfg)
            else userCount)
      else 0)"

text \<open>
  The number of non-blank lines of a file, and the number of those among them that come
  before the first line of \<open>bufio.MaxScanTokenSize\<close> bytes or more.
\<close>

definition nonBlankLines :: "string \<Rightarrow> nat" where
  "nonBlankLines content = length (filter (\<lambda>l. TrimSpace l \<noteq> []) (fileLines content))"

definition countedLines :: "string \<Rightarrow> nat" where
  "countedLines content = length (filter (\<lambda>l. TrimSpace l \<noteq> []) (linesBeforeLong content))"

subsection \<open>Scheduler\<close>

text \<open>
  The goroutines of \<open>performTesting\<close> as a transition system. One step is one statement
  that touches shared state (the mutex \<open>mu\<close>, \<open>successFound\<close>, the context, the
  semaphore, the channels, \<open>state.json\<close>), executed by the dispatch goroutine, by a
  worker goroutine, by the collecting loop or by the signal handler; a schedule is the
  list of the steps in the order in which they happen. The end of the process after the
  collecting loop has returned is not a step: a schedule may stop anywhere.
\<close>

text \<open>
  The position of a worker goroutine (lines 453 to 487): before \<open>if cfg.FirstOnly\<close>;
  holding \<open>mu\<close> for the first check; before \<open>testLogin\<close>; with the result of
  \<open>testLogin\<close>; holding \<open>mu\<close> for the report; before \<open>saveState\<close>; before the deferred
  \<open><-semaphore\<close> and \<open>wg.Done()\<close>; finished.
\<close>

datatype pc =
    AtStart
  | PreLocked
  | AtTrial
  | GotResult string
  | PostLocked string
  | AtSave
  | AtRelease
  | Exited

text \<open>
  The position of the dispatch goroutine (lines 438 to 496): at \<open>range credChan\<close>; about
  to execute the \<open>select\<close> with the pair received; blocked in the \<open>select\<close> because no
  case was ready; resumed with the slot acquired, before \<open>wg.Add(1)\<close> and the \<open>go\<close>
  statement; resumed by \<open>ctx.Done()\<close>, before the \<open>return\<close>; at \<open>wg.Wait()\<close>; returned.
  The deferred \<open>close(results)\<close> runs at the return, so \<open>results\<close> is closed exactly
  when the goroutine has returned.
\<close>

datatype dispatch =
    AtRange
  | AtSelect Credential
  | Blocked Credential
  | Acquired Credential
  | Stopping
  | AtWait
  | Returned

text \<open>
  The position of the collecting loop (lines 501 to 521): about to execute its
  \<open>select\<close>; blocked in the \<open>select\<close>; with a result received, before \<open>successCount++\<close>
  and \<open>fmt.Println(result)\<close>; resumed by \<open>ctx.Done()\<close> or by the close of \<open>results\<close>,
  before the \<open>return\<close>; returned.
\<close>

datatype collector = Selecting | Asleep | Got string | Leaving | Gone

datatype target = SuccessFlag | Checkpoint

text \<open>An access to shared state: the worker, the target and who held \<open>mu\<close> then.\<close>

record access =
  who :: nat
  what :: target
  holder :: "nat option"

record pool =
  credChan :: "Credential list"
  loopAt :: dispatch
  workers :: "(Credential \<times> pc) list"
  semaphore :: nat
  mu :: "nat option"
  successFound :: bool
  cancelled :: bool
  results :: "string list"
  stdout :: "string list"
  successCount :: nat
  collector :: collector
  panicked :: bool
  checkpoint :: "State option"
  accesses :: "access list"

definition start :: "Credential list \<Rightarrow> pool" where
  "start pairs =
     \<lparr>credChan = pairs, loopAt = AtRange, workers = [], semaphore = 0, mu = None,
      successFound = False, cancelled = False, results = [], stdout = [],
      successCount = 0, collector = Selecting, panicked = False, checkpoint = None,
      accesses = []\<rparr>"

definition setPc :: "nat \<Rightarrow> pc \<Rightarrow> pool \<Rightarrow> pool" where
  "setPc i p s = s\<lparr>workers := (workers s)[i := (fst (workers s ! i), p)]\<rparr>"

definition logAccess :: "nat \<Rightarrow> target \<Rightarrow> pool \<Rightarrow> pool" where
  "logAccess i t s = s\<lparr>accesses := accesses s @ [\<lparr>who = i, what = t, holder = mu s\<rparr>]\<rparr>"

text \<open>
  \<open>cancel()\<close> closes \<open>ctx.Done()\<close>: a goroutine blocked in a \<open>select\<close> on it is resumed
  with that case. The return of the dispatch goroutine closes \<open>results\<close>, which resumes
  a collecting loop blocked in its \<open>select\<close>.
\<close>

definition cancel :: "pool \<Rightarrow> pool" where
  "cancel s =
     s\<lparr>cancelled := True,
       loopAt := (case loopAt s of Blocked c \<Rightarrow> Stopping | l \<Rightarrow> l),
       collector := (case collector s of Asleep \<Rightarrow> Leaving | k \<Rightarrow> k)\<rparr>"

definition returnLoop :: "pool \<Rightarrow> pool" where
  "returnLoop s =
     s\<lparr>loopAt := Returned,
       collector := (case collector s of Asleep \<Rightarrow> Leaving | k \<Rightarrow> k)\<rparr>"

text \<open>
  \<open>results <- result\<close> on the channel of capacity \<open>cfg.Workers*2\<close>: a send on the closed
  channel panics, and the process ends; a receiver blocked in its \<open>select\<close> takes the
  value directly; otherwise the value goes to the buffer, and the sender blocks
  (\<open>None\<close>) while the buffer is full.
\<close>

definition send :: "Config \<Rightarrow> string \<Rightarrow> pool \<Rightarrow> pool option" where
  "send cfg result s =
     (if loopAt s = Returned then Some (s\<lparr>panicked := True\<rparr>)
      else if collector s = Asleep then Some (s\<lparr>collector := Got result\<rparr>)
      else if length (results s) < Workers cfg * 2 then
        Some (s\<lparr>results := results s @ [result]\<rparr>)
      else None)"

text \<open>
  \<open><-semaphore\<close>: when the dispatch goroutine is blocked in its \<open>select\<close> (the channel is
  full), the receive passes the slot on to it and resumes it with the send case.
\<close>

definition release :: "pool \<Rightarrow> pool option" where
  "release s =
     (case loopAt s of
        Blocked c \<Rightarrow> Some (s\<lparr>loopAt := Acquired c\<rparr>)
      | _ \<Rightarrow> (if semaphore s = 0 then None else Some (s\<lparr>semaphore := semaphore s - 1\<rparr>)))"

text \<open>
  The next statement of worker \<open>i\<close>, started with the pair \<open>c\<close>. \<open>None\<close> means that the
  worker cannot move: \<open>mu.Lock()\<close> while \<open>mu\<close> is held, a send on the full \<open>results\<close>, or
  the goroutine has finished. \<open>r\<close> is what \<open>testLogin\<close> returns when the statement is
  that call (\<open>""\<close> for a failed login). A worker that panics in its send keeps \<open>mu\<close>.
\<close>

fun runWorker :: "Config \<Rightarrow> nat \<Rightarrow> string \<Rightarrow> Credential \<Rightarrow> pc \<Rightarrow> pool \<Rightarrow> pool option" where
  "runWorker cfg i r c AtStart s =
     (if FirstOnly cfg then
        (if mu s = None then Some (setPc i PreLocked (s\<lparr>mu := Some i\<rparr>)) else None)
      else Some (setPc i AtTrial s))"
| "runWorker cfg i r c PreLocked s =
     (let s1 = logAccess i SuccessFlag s
      in if successFound s1 then Some (setPc i AtRelease (s1\<lparr>mu := None\<rparr>))
         else Some (setPc i AtTrial (s1\<lparr>mu := None\<rparr>)))"
| "runWorker cfg i r c AtTrial s = Some (setPc i (GotResult r) s)"
| "runWorker cfg i r c (GotResult result) s =
     (if result \<noteq> [] then
        (if mu s = None then Some (setPc i (PostLocked result) (s\<lparr>mu := Some i\<rparr>)) else None)
      else Some (setPc i AtSave s))"
| "runWorker cfg i r c (PostLocked result) s =
     (let s1 = (if FirstOnly cfg then logAccess i SuccessFlag s else s)
      in if FirstOnly cfg \<and> \<not> successFound s1 then
           Some (setPc i AtSave
             ((cancel (s1\<lparr>successFound := True, stdout := stdout s1 @ [result]\<rparr>))
                \<lparr>mu := None\<rparr>))
         else (case send cfg result s1 of
                 None \<Rightarrow> None
               | Some s2 \<Rightarrow>
                   if panicked s2 then Some s2 else Some (setPc i AtSave (s2\<lparr>mu := None\<rparr>))))"
| "runWorker cfg i r c AtSave s =
     Some (setPc i AtRelease
       ((logAccess i Checkpoint s)\<lparr>checkpoint := Some \<lparr>LastUser = user c, LastPass = pass c\<rparr>\<rparr>))"
| "runWorker cfg i r c AtRelease s =
     (case release s of None \<Rightarrow> None | Some s1 \<Rightarrow> Some (setPc i Exited s1))"
| "runWorker cfg i r c Exited s = None"

text \<open>
  The steps. \<open>Interrupt\<close>: the signal handler calls \<open>cancel()\<close>. \<open>Recv\<close>: the dispatch
  loop receives the next pair, or finds \<open>credChan\<close> closed and goes to \<open>wg.Wait()\<close>.
  \<open>Admit\<close>, \<open>Stop\<close> and \<open>Park\<close>: the \<open>select\<close> of the dispatch loop. The send on
  \<open>semaphore\<close> is ready while fewer than \<open>cfg.Workers\<close> slots are taken, the receive from
  \<open>ctx.Done()\<close> is ready once the context is cancelled; when both are ready Go takes
  either, when none is the goroutine blocks. A goroutine that was blocked goes on with
  the case that resumed it: \<open>Admit\<close> starts the worker, \<open>Stop\<close> returns. \<open>Wait\<close>:
  \<open>wg.Wait()\<close> returns. \<open>Run i r\<close>: worker \<open>i\<close> executes its next statement.
  \<open>Collect\<close>, \<open>CollectStop\<close>, \<open>CollectEnd\<close> and \<open>CollectPark\<close>: the \<open>select\<close> of the
  collecting loop (lines 501 to 521), which receives a result, returns on \<open>ctx.Done()\<close>,
  returns on the closed and empty \<open>results\<close>, or blocks; \<open>Print\<close>: it counts and prints
  the result it has received.
\<close>

datatype event =
    Interrupt | Recv | Admit | Stop | Park | Wait | Run nat string
  | Collect | Print | CollectStop | CollectEnd | CollectPark

fun act :: "Config \<Rightarrow> event \<Rightarrow> pool \<Rightarrow> pool option" where
  "act cfg Interrupt s = Some (cancel s)"
| "act cfg Recv s =
     (case loopAt s of
        AtRange \<Rightarrow>
          (case credChan s of
             [] \<Rightarrow> Some (s\<lparr>loopAt := AtWait\<rparr>)
           | c # cs \<Rightarrow> Some (s\<lparr>credChan := cs, loopAt := AtSelect c\<rparr>))
      | _ \<Rightarrow> None)"
| "act cfg Admit s =
     (case loopAt s of
        AtSelect c \<Rightarrow>
          (if semaphore s < Workers cfg then
             Some (s\<lparr>semaphore := semaphore s + 1, workers := workers s @ [(c, AtStart)],
                     loopAt := AtRange\<rparr>)
           else None)
      | Acquired c \<Rightarrow> Some (s\<lparr>workers := workers s @ [(c, AtStart)], loopAt := AtRange\<rparr>)
      | _ \<Rightarrow> None)"
| "act cfg Stop s =
     (case loopAt s of
        AtSelect c \<Rightarrow> (if cancelled s then Some (returnLoop s) else None)
      | Stopping \<Rightarrow> Some (returnLoop s)
      | _ \<Rightarrow> None)"
| "act cfg Park s =
     (case loopAt s of
        AtSelect c \<Rightarrow>
          (if \<not> cancelled s \<and> \<not> semaphore s < Workers cfg then Some (s\<lparr>loopAt := Blocked c\<rparr>)
           else None)
      | _ \<Rightarrow> None)"
| "act cfg Wait s =
     (case loopAt s of
        AtWait \<Rightarrow>
          (if list_all (\<lambda>w. snd w = Exited) (workers s) then Some (returnLoop s) else None)
      | _ \<Rightarrow> None)"
| "act cfg (Run i r) s =
     (if i < length (workers s)
      then runWorker cfg i r (fst (workers s ! i)) (snd (workers s ! i)) s
      else None)"
| "act cfg Collect s =
     (case collector s of
        Selecting \<Rightarrow>
          (case results s of
             [] \<Rightarrow> None
           | r # rs \<Rightarrow> Some (s\<lparr>results := rs, collector := Got r\<rparr>))
      | _ \<Rightarrow> None)"
| "act cfg Print s =
     (case collector s of
        Got r \<Rightarrow>
          Some (s\<lparr>stdout := stdout s @ [r], successCount := successCount s + 1,
                  collector := Selecting\<rparr>)
      | _ \<Rightarrow> None)"
| "act cfg CollectStop s =
     (case collector s of
        Selecting \<Rightarrow> (if cancelled s then Some (s\<lparr>collector := Gone\<rparr>) else None)
      | Leaving \<Rightarrow> Some (s\<lparr>collector := Gone\<rparr>)
      | _ \<Rightarrow> None)"
| "act cfg CollectEnd s =
     (case collector s of
        Selecting \<Rightarrow>
          (if results s = [] \<and> loopAt s = Returned then Some (s\<lparr>collector := Gone\<rparr>)
           else None)
      | _ \<Rightarrow> None)"
| "act cfg CollectPark s =
     (case collector s of
        Selecting \<Rightarrow>
          (if \<not> cancelled s \<and> results s = [] \<and> loopAt s \<noteq> Returned
           then Some (s\<lparr>collector := Asleep\<rparr>) else None)
      | _ \<Rightarrow> None)"

text \<open>After a panic the process has ended and nothing moves.\<close>

definition step :: "Config \<Rightarrow> event \<Rightarrow> pool \<Rightarrow> pool option" where
  "step cfg e s = (if panicked s then None else act cfg e s)"

fun run :: "Config \<Rightarrow> event list \<Rightarrow> pool \<Rightarrow> pool option" where
  "run cfg [] s = Some s"
| "run cfg (e # es) s = (case step cfg e s of None \<Rightarrow> None | Some s' \<Rightarrow> run cfg es s')"


definition inFlight :: "pool \<Rightarrow> nat" where
  "inFlight s = length (filter (\<lambda>w. snd w \<noteq> Exited) (workers s))"

definition inTrial :: "pool \<Rightarrow> nat" where
  "inTrial s = length (filter (\<lambda>w. snd w = AtTrial) (workers s))"

text \<open>The positions between \<open>mu.Lock()\<close> and \<open>mu.Unlock()\<close>.\<close>

fun holdsLock :: "pc \<Rightarrow> bool" where
  "holdsLock PreLocked = True"
| "holdsLock (PostLocked result) = True"
| "holdsLock p = False"

text \<open>The slot that the dispatch goroutine holds for a worker it has not started yet.\<close>

fun slotTaken :: "dispatch \<Rightarrow> nat" where
  "slotTaken (Acquired c) = 1"
| "slotTaken l = 0"

text \<open>
  Invariants of the scheduler: the semaphore counts the workers that hold a slot and the
  slot passed on to the dispatch goroutine; \<open>mu\<close> is held by exactly the worker that
  stands between a \<open>mu.Lock()\<close> and its \<open>mu.Unlock()\<close>; every recorded access to
  \<open>successFound\<close> was made by the holder of \<open>mu\<close>, and every write of the checkpoint by a
  worker that did not hold it.
\<close>

definition slotsInv :: "Config \<Rightarrow> pool \<Rightarrow> bool" where
  "slotsInv cfg s \<longleftrightarrow>
     semaphore s = inFlight s + slotTaken (loopAt s) \<and> semaphore s \<le> Workers cfg"

definition lockInv :: "pool \<Rightarrow> bool" where
  "lockInv s \<longleftrightarrow>
     (\<forall>i<length (workers s). holdsLock (snd (workers s ! i)) = (mu s = Some i)) \<and>
     (\<forall>i. mu s = Some i \<longrightarrow> i < length (workers s))"

definition accessesOk :: "pool \<Rightarrow> bool" where
  "accessesOk s \<longleftrightarrow>
     (\<forall>a\<in>set (accesses s).
        (what a = SuccessFlag \<longrightarrow> holder a = Some (who a)) \<and>
        (what a = Checkpoint \<longrightarrow> holder a \<noteq> Some (who a)))"

subsection \<open>Concrete inputs\<close>

text \<open>Files and configurations on which the theorems below are evaluated.\<close>

definition exFiles :: fs where
  "exFiles name =
     (if name = ''users.txt'' then Some ''u1\<newline>  u2 \<newline>\<newline>u3''
      else if name = ''pass.txt'' then Some (''s1'' @ [CHR 0x0D] @ ''\<newline>s2\<newline>'')
      else if name = ''dup.txt'' then Some ''a\<newline>a\<newline>''
      else None)"

definition cfgLiteral :: Config where
  "cfgLiteral = \<lparr>SingleUser = '' admin '', UserList = [], SinglePass = [], PassList = [],
     FirstOnly = False, UserFirst = True, Workers = 10\<rparr>"

definition cfgDup :: Config where
  "cfgDup = \<lparr>SingleUser = [], UserList = ''dup.txt'', SinglePass = ''x'', PassList = [],
     FirstOnly = False, UserFirst = True, Workers = 10\<rparr>"

definition cfgLL :: Config where
  "cfgLL = \<lparr>SingleUser = ''root'', UserList = [], SinglePass = ''toor'', PassList = [],
     FirstOnly = False, UserFirst = False, Workers = 10\<rparr>"

definition cfgLF :: Config where
  "cfgLF = \<lparr>SingleUser = ''root'', UserList = [], SinglePass = [], PassList = ''pass.txt'',
     FirstOnly = False, UserFirst = False, Workers = 10\<rparr>"

definition cfgFF :: Config where
  "cfgFF = \<lparr>SingleUser = [], UserList = ''users.txt'', SinglePass = [], PassList = ''pass.txt'',
     FirstOnly = False, UserFirst = False, Workers = 10\<rparr>"

text \<open>A file of \<open>2 ^ 32\<close> lines \<open>a\<close>, given as user list and as password list.\<close>

definition bigContent :: string where
  "bigContent = concat (replicate (2 ^ 32) ''a\<newline>'')"

definition bigFiles :: fs where
  "bigFiles name = Some bigContent"

definition cfgBig :: Config where
  "cfgBig = \<lparr>SingleUser = [], UserList = ''big.txt'', SinglePass = [], PassList = ''big.txt'',
     FirstOnly = False, UserFirst = False, Workers = 10\<rparr>"

text \<open>
  A file of three non-blank lines whose second line has \<open>bufio.MaxScanTokenSize\<close>
  bytes, given as password list.
\<close>

definition longContent :: string where
  "longContent = ''x\<newline>'' @ replicate MaxScanTokenSize CHR ''a'' @ ''\<newline>b\<newline>''"

definition longFiles :: fs where
  "longFiles name = Some longContent"

definition cfgLong :: Config where
  "cfgLong = \<lparr>SingleUser = ''root'', UserList = [], SinglePass = [], PassList = ''long.txt'',
     FirstOnly = False, UserFirst = False, Workers = 10\<rparr>"

text \<open>
  Configurations and schedules of the scheduler. In \<open>fullSchedule\<close> two workers are
  inside \<open>testLogin\<close> and the dispatch loop holds a third pair; in \<open>saveSchedule\<close>
  worker 0 writes the checkpoint while worker 1 holds \<open>mu\<close>; in \<open>lateSchedule\<close> the
  interrupt comes first; in \<open>lockSchedule\<close> one worker runs from admission to
  \<open>saveState\<close>; in \<open>busySchedule\<close> the interrupt comes while both slots are taken and
  worker 0 holds \<open>mu\<close> with a success; in \<open>blockedSchedule\<close> the dispatch loop blocks in
  its \<open>select\<close>. In \<open>forwardSchedule\<close> the collecting loop and the dispatch loop are
  blocked in their \<open>select\<close>, two workers pass the first check before either reports, and
  both succeed and report; \<open>panicSchedule\<close> is the same with the return of the dispatch
  loop before the second report. In \<open>raceSchedule\<close> the collecting loop has not executed
  its \<open>select\<close> before three workers have reported.
\<close>

definition cfgFirst :: Config where
  "cfgFirst = \<lparr>SingleUser = [], UserList = ''users.txt'', SinglePass = ''x'', PassList = [],
     FirstOnly = True, UserFirst = False, Workers = 3\<rparr>"


definition cfgTwo :: Config where
  "cfgTwo = \<lparr>SingleUser = [], UserList = ''users.txt'', SinglePass = ''x'', PassList = [],
     FirstOnly = False, UserFirst = False, Workers = 2\<rparr>"

definition threePairs :: "Credential list" where
  "threePairs = [\<lparr>user = ''u1'', pass = ''x''\<rparr>, \<lparr>user = ''u2'', pass = ''x''\<rparr>,
     \<lparr>user = ''u3'', pass = ''x''\<rparr>]"

definition fullSchedule :: "event list" where
  "fullSchedule = [Recv, Admit, Recv, Admit, Recv, Run 0 [], Run 1 []]"

definition saveSchedule :: "event list" where
  "saveSchedule =
     [Recv, Admit, Recv, Admit,
      Run 0 [], Run 0 [], Run 0 [],
      Run 1 [], Run 1 ''Success: u2'', Run 1 [],
      Run 0 []]"


definition lockSchedule :: "event list" where
  "lockSchedule =
     [Recv, Admit, Run 0 [], Run 0 [], Run 0 ''Success: u1'', Run 0 [], Run 0 [], Run 0 []]"





definition raceSchedule :: "event list" where
  "raceSchedule =
     [Recv, Admit, Recv, Admit, Recv, Admit,
      Run 0 [], Run 0 [], Run 1 [], Run 1 [], Run 2 [], Run 2 [],
      Run 0 ''Success: u1'', Run 1 ''Success: u2'', Run 2 ''Success: u3'',
      Run 0 [], Run 0 [], Run 1 [], Run 1 [], Run 2 [], Run 2 [],
      Collect, Print, Collect, Print]"

section \<open>Properties of the source streams\<close>

subsection \<open>White-space trimming\<close>

lemma trimLeftSpace_no_prefix: "find (\<lambda>t. prefix t (trimLeftSpace s)) spaceRunes = None"
proof (induction s rule: trimLeftSpace.induct)
  case (1 s)
  show ?case
  proof (cases "find (\<lambda>t. prefix t s) spaceRunes")
    case None
    then show ?thesis by (simp add: trimLeftSpace.simps [of s])
  next
    case (Some t)
    with "1.IH" [OF Some] show ?thesis by (simp add: trimLeftSpace.simps [of s])
  qed
qed

lemma trimRightSpace_no_suffix: "find (\<lambda>t. suffix t (trimRightSpace s)) spaceRunes = None"
proof (induction s rule: trimRightSpace.induct)
  case (1 s)
  show ?case
  proof (cases "find (\<lambda>t. suffix t s) spaceRunes")
    case None
    then show ?thesis by (simp add: trimRightSpace.simps [of s])
  next
    case (Some t)
    with "1.IH" [OF Some] show ?thesis by (simp add: trimRightSpace.simps [of s])
  qed
qed

lemma trimRightSpace_prefix: "prefix (trimRightSpace s) s"
proof (induction s rule: trimRightSpace.induct)
  case (1 s)
  show ?case
  proof (cases "find (\<lambda>t. suffix t s) spaceRunes")
    case None
    then show ?thesis by (simp add: trimRightSpace.simps [of s])
  next
    case (Some t)
    have "prefix (take (length s - length t) s) s" by (rule take_is_prefix)
    with "1.IH" [OF Some] have "prefix (trimRightSpace (take (length s - length t) s)) s"
      by (rule prefix_order.trans)
    with Some show ?thesis by (simp add: trimRightSpace.simps [of s])
  qed
qed

lemma trimRightSpace_keeps_no_prefix:
  assumes "find (\<lambda>t. prefix t s) spaceRunes = None"
  shows "find (\<lambda>t. prefix t (trimRightSpace s)) spaceRunes = None"
proof -
  have "\<not> prefix t (trimRightSpace s)" if "t \<in> set spaceRunes" for t
  proof
    assume "prefix t (trimRightSpace s)"
    then have "prefix t s" using trimRightSpace_prefix [of s] by (rule prefix_order.trans)
    with assms that show False by (auto simp: find_None_iff)
  qed
  then show ?thesis by (auto simp: find_None_iff)
qed

lemma trimLeftSpace_fixed:
  "find (\<lambda>t. prefix t s) spaceRunes = None \<Longrightarrow> trimLeftSpace s = s"
  by (simp add: trimLeftSpace.simps [of s])

lemma trimRightSpace_fixed:
  "find (\<lambda>t. suffix t s) spaceRunes = None \<Longrightarrow> trimRightSpace s = s"
  by (simp add: trimRightSpace.simps [of s])

lemma TrimSpace_idem: "TrimSpace (TrimSpace s) = TrimSpace s"
  unfolding TrimSpace_def
  by (simp add: trimLeftSpace_fixed trimRightSpace_fixed trimRightSpace_keeps_no_prefix
      trimLeftSpace_no_prefix trimRightSpace_no_suffix)

subsection \<open>The two file loops\<close>

lemma streamLoop_filter: "streamLoop ts = filter (\<lambda>x. x \<noteq> []) (map TrimSpace ts)"
  by (induction ts) (simp_all add: Let_def)

lemma resumeLoop_found: "resumeLoop v True ts = streamLoop ts"
  by (induction ts) (simp_all add: Let_def)

lemma resumeLoop_absent:
  "v \<noteq> [] \<Longrightarrow> \<forall>x\<in>set ts. TrimSpace x \<noteq> v \<Longrightarrow> resumeLoop v False ts = []"
  by (induction ts) (simp_all add: Let_def)

lemma resumeLoop_split:
  "v \<noteq> [] \<Longrightarrow> \<forall>x\<in>set pre. TrimSpace x \<noteq> v \<Longrightarrow> TrimSpace l = v \<Longrightarrow>
   resumeLoop v False (pre @ l # post) = streamLoop post"
  by (induction pre) (simp_all add: Let_def resumeLoop_found)

lemma streamLoop_trimmed: "c \<in> set (streamLoop ts) \<Longrightarrow> c \<noteq> [] \<and> TrimSpace c = c"
  by (auto simp: streamLoop_filter TrimSpace_idem)

lemma resumeLoop_subset: "set (resumeLoop v b ts) \<subseteq> set (streamLoop ts)"
  by (induction ts arbitrary: b) (auto simp: Let_def)

subsection \<open>The scanner and the lines of a file\<close>

lemma trimRightSpace_CR: "trimRightSpace (s @ [CHR 0x0D]) = trimRightSpace s"
proof -
  have "find (\<lambda>t. suffix t (s @ [CHR 0x0D])) spaceRunes = Some [CHR 0x0D]"
    by (simp add: spaceRunes_def suffix_to_prefix)
  then show ?thesis by (simp add: trimRightSpace.simps [of "s @ [CHR 0x0D]"])
qed

lemma prefix_CR:
  assumes "t \<in> set spaceRunes" and "s \<noteq> []"
  shows "prefix t (s @ [CHR 0x0D]) = prefix t s"
proof -
  have "t \<noteq> s @ [CHR 0x0D]"
  proof
    assume "t = s @ [CHR 0x0D]"
    then have "last t = CHR 0x0D" and "2 \<le> length t" using assms(2) by (auto simp: Suc_le_eq)
    with assms(1) show False by (auto simp: spaceRunes_def)
  qed
  then show ?thesis by (simp add: prefix_snoc)
qed

lemma find_prefix_CR:
  "s \<noteq> [] \<Longrightarrow>
   find (\<lambda>t. prefix t (s @ [CHR 0x0D])) spaceRunes = find (\<lambda>t. prefix t s) spaceRunes"
  by (rule find_cong) (simp_all add: prefix_CR del: prefix_snoc)

lemma TrimSpace_CR: "TrimSpace (s @ [CHR 0x0D]) = TrimSpace s"
  unfolding TrimSpace_def
proof (induction s rule: trimLeftSpace.induct)
  case (1 s)
  show ?case
  proof (cases "s = []")
    case True
    then show ?thesis
      by (simp add: trimLeftSpace.simps trimRightSpace.simps spaceRunes_def)
  next
    case False
    note F = find_prefix_CR [OF False]
    show ?thesis
    proof (cases "find (\<lambda>t. prefix t s) spaceRunes")
      case None
      then show ?thesis
        by (simp add: trimLeftSpace.simps [of s] trimLeftSpace.simps [of "s @ [CHR 0x0D]"] F
            trimRightSpace_CR del: prefix_snoc)
    next
      case (Some t)
      then have "prefix t s" by (auto simp: find_Some_iff)
      then have "length t \<le> length s" by (rule prefix_length_le)
      then have "drop (length t) (s @ [CHR 0x0D]) = drop (length t) s @ [CHR 0x0D]" by simp
      with "1.IH" [OF Some] Some show ?thesis
        by (simp add: trimLeftSpace.simps [of s] trimLeftSpace.simps [of "s @ [CHR 0x0D]"] F
            del: prefix_snoc)
    qed
  qed
qed

lemma TrimSpace_dropCR: "TrimSpace (dropCR l) = TrimSpace l"
proof (cases "l \<noteq> [] \<and> last l = CHR 0x0D")
  case True
  then have "l = butlast l @ [CHR 0x0D]" by (metis append_butlast_last_id)
  then have "TrimSpace l = TrimSpace (butlast l)" by (metis TrimSpace_CR)
  with True show ?thesis by (simp add: dropCR_def)
next
  case False
  then show ?thesis by (auto simp: dropCR_def)
qed

lemma linesFrom_head:
  "cur \<noteq> [] \<Longrightarrow> \<exists>l ls. linesFrom cur cs = l # ls \<and> length cur \<le> length l"
proof (induction cs arbitrary: cur)
  case Nil
  then show ?case by simp
next
  case (Cons c cs)
  show ?case
  proof (cases "c = CHR 0x0A")
    case True
    then show ?thesis by simp
  next
    case False
    from Cons.IH [of "cur @ [c]"] obtain l ls
      where "linesFrom (cur @ [c]) cs = l # ls" and "length (cur @ [c]) \<le> length l" by auto
    with False show ?thesis by auto
  qed
qed

lemma scanFrom_linesFrom:
  "length cur < MaxScanTokenSize \<Longrightarrow>
   scanFrom cur cs = map dropCR (takeWhile (\<lambda>l. length l < MaxScanTokenSize) (linesFrom cur cs))"
proof (induction cs arbitrary: cur)
  case Nil
  then show ?case by simp
next
  case (Cons c cs)
  show ?case
  proof (cases "c = CHR 0x0A")
    case True
    have "length ([]::string) < MaxScanTokenSize" by (simp add: MaxScanTokenSize_def)
    from Cons.IH [OF this] True Cons.prems show ?thesis by simp
  next
    case nl: False
    show ?thesis
    proof (cases "MaxScanTokenSize \<le> length cur + 1")
      case True
      from linesFrom_head [of "cur @ [c]" cs] obtain l ls
        where "linesFrom (cur @ [c]) cs = l # ls" and "length (cur @ [c]) \<le> length l" by auto
      with True nl show ?thesis by simp
    next
      case False
      then have "length (cur @ [c]) < MaxScanTokenSize" by simp
      from Cons.IH [OF this] False nl show ?thesis by simp
    qed
  qed
qed

lemma scanLines_fileLines: "scanLines content = map dropCR (linesBeforeLong content)"
  unfolding scanLines_def linesBeforeLong_def fileLines_def
  by (rule scanFrom_linesFrom) (simp add: MaxScanTokenSize_def)

lemma linesFrom_replicate:
  "c \<noteq> CHR 0x0A \<Longrightarrow> linesFrom cur (replicate n c @ rest) = linesFrom (cur @ replicate n c) rest"
  by (induction n arbitrary: cur) (simp_all add: replicate_app_Cons_same)

lemma streamLoop_dropCR: "streamLoop (map dropCR ts) = streamLoop ts"
  by (induction ts) (simp_all add: Let_def TrimSpace_dropCR)

lemma resumeLoop_dropCR: "resumeLoop v b (map dropCR ts) = resumeLoop v b ts"
  by (induction ts arbitrary: b) (simp_all add: Let_def TrimSpace_dropCR)

lemma countLoop_dropCR: "countLoop c (map dropCR ts) = countLoop c ts"
  by (induction ts arbitrary: c) (simp_all add: TrimSpace_dropCR)

lemma resumeLoop_scanLines:
  "resumeLoop v b (scanLines content) = resumeLoop v b (linesBeforeLong content)"
  by (simp only: scanLines_fileLines resumeLoop_dropCR)

lemma streamLoop_scanLines: "streamLoop (scanLines content) = streamLoop (linesBeforeLong content)"
  by (simp only: scanLines_fileLines streamLoop_dropCR)

lemma countLoop_scanLines: "countLoop c (scanLines content) = countLoop c (linesBeforeLong content)"
  by (simp only: scanLines_fileLines countLoop_dropCR)

lemma fileLines_long:
  "fileLines longContent = [''x'', replicate MaxScanTokenSize CHR ''a'', ''b'']"
proof -
  have "linesFrom [] (replicate MaxScanTokenSize CHR ''a'' @ ''\<newline>b\<newline>'')
      = linesFrom ([] @ replicate MaxScanTokenSize CHR ''a'') ''\<newline>b\<newline>''"
    by (rule linesFrom_replicate) simp
  then show ?thesis by (simp add: fileLines_def longContent_def)
qed

lemma linesBeforeLong_long: "linesBeforeLong longContent = [''x'']"
  by (simp add: linesBeforeLong_def fileLines_long) (simp add: MaxScanTokenSize_def)

lemma TrimSpace_replicate_a: "0 < n \<Longrightarrow> TrimSpace (replicate n CHR ''a'') \<noteq> []"
proof -
  assume "0 < n"
  then obtain m where n: "n = Suc m" by (cases n) auto
  have "find (\<lambda>t. prefix t (replicate n CHR ''a'')) spaceRunes = None"
    by (simp add: n spaceRunes_def)
  then have l: "trimLeftSpace (replicate n CHR ''a'') = replicate n CHR ''a''"
    by (simp add: trimLeftSpace.simps [of "replicate n CHR ''a''"])
  have "replicate n CHR ''a'' = replicate m CHR ''a'' @ [CHR ''a'']"
    by (simp add: n replicate_append_same)
  then have "find (\<lambda>t. suffix t (replicate n CHR ''a'')) spaceRunes = None"
    by (simp add: spaceRunes_def suffix_to_prefix)
  then have "trimRightSpace (replicate n CHR ''a'') = replicate n CHR ''a''"
    by (simp add: trimRightSpace.simps [of "replicate n CHR ''a''"])
  with l show ?thesis by (simp add: TrimSpace_def n)
qed

text \<open>Equations for evaluating the streams on concrete files.\<close>

lemmas stream_eval =
  streamLinesFromFile_def resumeStreamFromFile_def scanLines_def MaxScanTokenSize_def
  dropCR_def TrimSpace_def trimLeftSpace.simps trimRightSpace.simps spaceRunes_def
  suffix_to_prefix singleValueChannel_def userChan_def passChan_def
  linesBeforeLong_def fileLines_def

text \<open>
  C5, as stated, fails for a file with a line of \<open>bufio.MaxScanTokenSize\<close> bytes or
  more: the scanner stops there and the stream ends. In \<open>long.txt\<close> the sentinel \<open>x\<close> is
  the first line and two non-blank lines follow it, but the resumed stream is empty.
\<close>

theorem resumeStreamFromFile_long_line_counterexample:
  "fileLines longContent = [''x'', replicate MaxScanTokenSize CHR ''a'', ''b''] \<and>
   TrimSpace ''b'' = ''b'' \<and>
   resumeStreamFromFile longFiles ''long.txt'' ''x'' = []"
proof -
  have x: "TrimSpace ''x'' = ''x''" and b: "TrimSpace ''b'' = ''b''"
    by (simp_all add: TrimSpace_def trimLeftSpace.simps trimRightSpace.simps spaceRunes_def
        suffix_to_prefix)
  have "resumeStreamFromFile longFiles ''long.txt'' ''x'' = []"
    by (simp add: resumeStreamFromFile_def longFiles_def resumeLoop_scanLines
        linesBeforeLong_long x)
  with fileLines_long b show ?thesis by simp
qed

text \<open>
  C5, amended. With a non-empty sentinel, the resumable stream over a file that opens
  yields, of the lines that come before the first line of \<open>bufio.MaxScanTokenSize\<close> bytes
  or more, the non-blank trimmed ones after the first line whose trimmed content is the
  sentinel, in file order, and nothing when none of these lines has the sentinel as its
  trimmed content. In a file without such a long line these lines are all the lines of
  the file.
\<close>

theorem resumeStreamFromFile_after_sentinel:
  assumes "files filename = Some content" and "lastValue \<noteq> []"
  shows "(\<forall>pre l post.
            linesBeforeLong content = pre @ l # post \<and>
            (\<forall>x\<in>set pre. TrimSpace x \<noteq> lastValue) \<and> TrimSpace l = lastValue \<longrightarrow>
            resumeStreamFromFile files filename lastValue
              = filter (\<lambda>x. x \<noteq> []) (map TrimSpace post)) \<and>
         ((\<forall>x\<in>set (linesBeforeLong content). TrimSpace x \<noteq> lastValue) \<longrightarrow>
            resumeStreamFromFile files filename lastValue = []) \<and>
         ((\<forall>l\<in>set (fileLines content). length l < MaxScanTokenSize) \<longrightarrow>
            linesBeforeLong content = fileLines content)"
proof (intro conjI allI impI)
  fix pre l post
  assume "linesBeforeLong content = pre @ l # post \<and>
            (\<forall>x\<in>set pre. TrimSpace x \<noteq> lastValue) \<and> TrimSpace l = lastValue"
  with assms show "resumeStreamFromFile files filename lastValue
              = filter (\<lambda>x. x \<noteq> []) (map TrimSpace post)"
    by (simp add: resumeStreamFromFile_def resumeLoop_scanLines resumeLoop_split
        streamLoop_filter)
next
  assume "\<forall>x\<in>set (linesBeforeLong content). TrimSpace x \<noteq> lastValue"
  with assms show "resumeStreamFromFile files filename lastValue = []"
    by (simp add: resumeStreamFromFile_def resumeLoop_scanLines resumeLoop_absent)
next
  assume "\<forall>l\<in>set (fileLines content). length l < MaxScanTokenSize"
  then show "linesBeforeLong content = fileLines content"
    by (simp add: linesBeforeLong_def)
qed

theorem resumeStreamFromFile_after_sentinel_witness:
  "resumeStreamFromFile exFiles ''users.txt'' ''u2'' = [''u3''] \<and>
   resumeStreamFromFile exFiles ''users.txt'' ''u9'' = [] \<and>
   linesBeforeLong ''u1\<newline>  u2 \<newline>\<newline>u3'' = fileLines ''u1\<newline>  u2 \<newline>\<newline>u3''"
proof -
  have f: "exFiles ''users.txt'' = Some ''u1\<newline>  u2 \<newline>\<newline>u3''"
    by (simp add: exFiles_def)
  have n2: "''u2'' \<noteq> []" and n9: "''u9'' \<noteq> []" by simp_all
  have found: "linesBeforeLong ''u1\<newline>  u2 \<newline>\<newline>u3'' = [''u1''] @ ''  u2 '' # [[], ''u3''] \<and>
      (\<forall>x\<in>set [''u1'']. TrimSpace x \<noteq> ''u2'') \<and> TrimSpace ''  u2 '' = ''u2''"
    by (simp add: stream_eval)
  have post: "filter (\<lambda>x. x \<noteq> []) (map TrimSpace [[], ''u3'']) = [''u3'']"
    by (simp add: stream_eval)
  have absent: "\<forall>x\<in>set (linesBeforeLong ''u1\<newline>  u2 \<newline>\<newline>u3''). TrimSpace x \<noteq> ''u9''"
    by (simp add: stream_eval)
  have short: "\<forall>l\<in>set (fileLines ''u1\<newline>  u2 \<newline>\<newline>u3''). length l < MaxScanTokenSize"
    by (simp add: fileLines_def MaxScanTokenSize_def)
  note t2 = resumeStreamFromFile_after_sentinel
          [of exFiles "''users.txt''" "''u1\<newline>  u2 \<newline>\<newline>u3''" "''u2''", OF f n2]
  note t9 = resumeStreamFromFile_after_sentinel
          [of exFiles "''users.txt''" "''u1\<newline>  u2 \<newline>\<newline>u3''" "''u9''", OF f n9]
  have "resumeStreamFromFile exFiles ''users.txt'' ''u2''
          = filter (\<lambda>x. x \<noteq> []) (map TrimSpace [[], ''u3''])"
    by (rule t2 [THEN conjunct1, rule_format]) (rule found)
  moreover have "resumeStreamFromFile exFiles ''users.txt'' ''u9'' = []"
    by (rule t9 [THEN conjunct2, THEN conjunct1, rule_format]) (rule absent [rule_format])
  moreover have "linesBeforeLong ''u1\<newline>  u2 \<newline>\<newline>u3'' = fileLines ''u1\<newline>  u2 \<newline>\<newline>u3''"
    by (rule t2 [THEN conjunct2, THEN conjunct2, rule_format]) (rule short [rule_format])
  ultimately show ?thesis by (simp only: post)
qed

text \<open>
  C6. With the empty sentinel the resumable stream is the plain file-backed stream, for
  every file name and file system (a file that does not open included).
\<close>

theorem resumeStreamFromFile_empty_sentinel:
  "resumeStreamFromFile files filename [] = streamLinesFromFile files filename"
  by (simp add: resumeStreamFromFile_def streamLinesFromFile_def resumeLoop_found
      split: option.splits)

text \<open>
  C9, as stated, fails for the literal stream: \<open>singleValueChannel\<close> sends its argument
  unchanged. Without \<open>-p\<close> and \<open>-P\<close> the password stream is the one candidate \<open>""\<close>, and
  a user given as \<open>" admin "\<close> keeps its blanks.
\<close>

theorem literal_candidate_counterexample:
  "passChan exFiles cfgLiteral None = [[]] \<and>
   userChan exFiles cfgLiteral None = ['' admin ''] \<and>
   TrimSpace '' admin '' = ''admin''"
  by (simp add: stream_eval cfgLiteral_def)

text \<open>
  C9, amended. Every candidate of the file-backed stream and of the resumable stream is
  non-empty and equal to its own \<open>TrimSpace\<close>; the literal stream yields exactly the
  value it is given.
\<close>

theorem file_candidates_trimmed:
  "(\<forall>c\<in>set (streamLinesFromFile files filename). c \<noteq> [] \<and> TrimSpace c = c) \<and>
   (\<forall>c\<in>set (resumeStreamFromFile files filename lastValue). c \<noteq> [] \<and> TrimSpace c = c) \<and>
   singleValueChannel v = [v]"
proof -
  have "c \<noteq> [] \<and> TrimSpace c = c" if "c \<in> set (streamLinesFromFile files filename)" for c
    using that
    by (cases "files filename") (simp_all add: streamLinesFromFile_def streamLoop_trimmed)
  moreover
  have "c \<noteq> [] \<and> TrimSpace c = c"
    if "c \<in> set (resumeStreamFromFile files filename lastValue)" for c
  proof (cases "files filename")
    case None
    with that show ?thesis by (simp add: resumeStreamFromFile_def)
  next
    case (Some content)
    with that have "c \<in> set (resumeLoop lastValue (lastValue = []) (scanLines content))"
      by (simp add: resumeStreamFromFile_def)
    with resumeLoop_subset have "c \<in> set (streamLoop (scanLines content))" by blast
    then show ?thesis by (rule streamLoop_trimmed)
  qed
  moreover have "singleValueChannel v = [v]" by (simp add: singleValueChannel_def)
  ultimately show ?thesis by blast
qed

theorem file_candidates_trimmed_witness:
  "''u2'' \<in> set (streamLinesFromFile exFiles ''users.txt'') \<and> TrimSpace ''u2'' = ''u2'' \<and>
   ''u3'' \<in> set (resumeStreamFromFile exFiles ''users.txt'' ''u1'') \<and> TrimSpace ''u3'' = ''u3''"
proof -
  have a: "''u2'' \<in> set (streamLinesFromFile exFiles ''users.txt'')"
    by (simp add: stream_eval exFiles_def)
  have b: "''u3'' \<in> set (resumeStreamFromFile exFiles ''users.txt'' ''u1'')"
    by (simp add: stream_eval exFiles_def)
  note t = file_candidates_trimmed [of exFiles "''users.txt''" "''u1''" "[]"]
  from t [THEN conjunct1, rule_format, OF a] t [THEN conjunct2, THEN conjunct1, rule_format, OF b] a b
  show ?thesis by (intro conjI) (erule conjunct2 | assumption)+
qed

section \<open>Properties of the pair generator\<close>

lemma length_sendPasswords: "length (sendPasswords u ps) = length ps"
  by (induction ps) simp_all

lemma length_sendUsers: "length (sendUsers us p) = length us"
  by (induction us) simp_all

lemma nth_sendPasswords:
  "j < length ps \<Longrightarrow> sendPasswords u ps ! j = \<lparr>user = u, pass = ps ! j\<rparr>"
  by (induction ps arbitrary: j) (auto simp: nth_Cons')

lemma nth_sendUsers:
  "i < length us \<Longrightarrow> sendUsers us p ! i = \<lparr>user = us ! i, pass = p\<rparr>"
  by (induction us arbitrary: i) (auto simp: nth_Cons')

lemma length_userFirstLoop: "length (userFirstLoop us ps) = length us * length ps"
  by (induction us) (simp_all add: length_sendPasswords)

lemma length_passFirstLoop: "length (passFirstLoop us ps) = length us * length ps"
  by (induction ps) (simp_all add: length_sendUsers)

lemma nth_userFirstLoop:
  "i < length us \<Longrightarrow> j < length ps \<Longrightarrow>
   userFirstLoop us ps ! (i * length ps + j) = \<lparr>user = us ! i, pass = ps ! j\<rparr>"
proof (induction us arbitrary: i)
  case Nil
  then show ?case by simp
next
  case (Cons u us)
  show ?case
  proof (cases i)
    case 0
    with Cons.prems show ?thesis
      by (simp add: nth_append length_sendPasswords nth_sendPasswords)
  next
    case (Suc k)
    with Cons.prems have k: "k < length us" by simp
    have "userFirstLoop (u # us) ps ! (i * length ps + j)
        = userFirstLoop us ps ! (k * length ps + j)"
      using Suc by (simp add: nth_append length_sendPasswords)
    with Cons.IH [OF k Cons.prems(2)] Suc show ?thesis by simp
  qed
qed

lemma nth_passFirstLoop:
  "i < length us \<Longrightarrow> j < length ps \<Longrightarrow>
   passFirstLoop us ps ! (j * length us + i) = \<lparr>user = us ! i, pass = ps ! j\<rparr>"
proof (induction ps arbitrary: j)
  case Nil
  then show ?case by simp
next
  case (Cons p ps)
  show ?case
  proof (cases j)
    case 0
    with Cons.prems show ?thesis
      by (simp add: nth_append length_sendUsers nth_sendUsers)
  next
    case (Suc k)
    with Cons.prems have k: "k < length ps" by simp
    have "passFirstLoop us (p # ps) ! (j * length us + i)
        = passFirstLoop us ps ! (k * length us + i)"
      using Suc by (simp add: nth_append length_sendUsers)
    with Cons.IH [OF Cons.prems(1) k] Suc show ?thesis by simp
  qed
qed

text \<open>
  C3. For users \<open>us\<close> (\<open>m\<close> of them) and passwords \<open>ps\<close> (\<open>n\<close> of them) the generator emits
  \<open>m * n\<close> pairs; with the user-first strategy the pair of user \<open>i\<close> and password \<open>j\<close> is
  at position \<open>i * n + j\<close>, otherwise at position \<open>j * m + i\<close>.
\<close>

theorem buildCredentialPairs_order:
  "length (buildCredentialPairs us ps b) = length us * length ps \<and>
   (\<forall>i<length us. \<forall>j<length ps.
      buildCredentialPairs us ps True ! (i * length ps + j) = \<lparr>user = us ! i, pass = ps ! j\<rparr> \<and>
      buildCredentialPairs us ps False ! (j * length us + i) = \<lparr>user = us ! i, pass = ps ! j\<rparr>)"
  by (simp add: buildCredentialPairs_def length_userFirstLoop length_passFirstLoop
      nth_userFirstLoop nth_passFirstLoop)

theorem buildCredentialPairs_order_witness:
  "length (buildCredentialPairs [''i1'', ''i2''] [''s1'', ''s2''] True) = 4 \<and>
   buildCredentialPairs [''i1'', ''i2''] [''s1'', ''s2''] True ! 2 = \<lparr>user = ''i2'', pass = ''s1''\<rparr> \<and>
   buildCredentialPairs [''i1'', ''i2''] [''s1'', ''s2''] False ! 1 = \<lparr>user = ''i2'', pass = ''s1''\<rparr>"
proof -
  note t = buildCredentialPairs_order [of "[''i1'', ''i2'']" "[''s1'', ''s2'']" True]
  have i: "1 < length [''i1'', ''i2'']" and j: "0 < length [''s1'', ''s2'']" by simp_all
  from t [THEN conjunct1] t [THEN conjunct2, rule_format, OF i j]
  show ?thesis by (simp add: numeral_2_eq_2)
qed

text \<open>The two orders on the inputs \<open>[i1, i2]\<close> and \<open>[s1, s2]\<close>.\<close>

lemma buildCredentialPairs_examples:
  "buildCredentialPairs [''i1'', ''i2''] [''s1'', ''s2''] True =
     [\<lparr>user = ''i1'', pass = ''s1''\<rparr>, \<lparr>user = ''i1'', pass = ''s2''\<rparr>,
      \<lparr>user = ''i2'', pass = ''s1''\<rparr>, \<lparr>user = ''i2'', pass = ''s2''\<rparr>]"
  "buildCredentialPairs [''i1'', ''i2''] [''s1'', ''s2''] False =
     [\<lparr>user = ''i1'', pass = ''s1''\<rparr>, \<lparr>user = ''i2'', pass = ''s1''\<rparr>,
      \<lparr>user = ''i1'', pass = ''s2''\<rparr>, \<lparr>user = ''i2'', pass = ''s2''\<rparr>]"
  by (simp_all add: buildCredentialPairs_def)

lemma count_sendPasswords:
  "count_list (sendPasswords u ps) \<lparr>user = u', pass = p'\<rparr>
     = (if u = u' then count_list ps p' else 0)"
  by (induction ps) auto

lemma count_sendUsers:
  "count_list (sendUsers us p) \<lparr>user = u', pass = p'\<rparr>
     = (if p = p' then count_list us u' else 0)"
  by (induction us) auto

lemma count_userFirstLoop:
  "count_list (userFirstLoop us ps) \<lparr>user = u, pass = p\<rparr> = count_list us u * count_list ps p"
  by (induction us) (auto simp: count_sendPasswords)

lemma count_passFirstLoop:
  "count_list (passFirstLoop us ps) \<lparr>user = u, pass = p\<rparr> = count_list us u * count_list ps p"
  by (induction ps) (auto simp: count_sendUsers)

lemma distinct_count_le: "distinct xs \<Longrightarrow> count_list xs x \<le> 1"
  by (induction xs) auto

lemma count_le_distinct: "(\<And>x. count_list xs x \<le> 1) \<Longrightarrow> distinct xs"
proof (induction xs)
  case Nil
  then show ?case by simp
next
  case (Cons a xs)
  from Cons.prems [of a] have "count_list xs a = 0" by simp
  then have "a \<notin> set xs" by (simp add: count_list_0_iff)
  moreover have "count_list xs x \<le> 1" for x
    using Cons.prems [of x] by (simp split: if_splits)
  then have "distinct xs" by (rule Cons.IH)
  ultimately show ?case by simp
qed

text \<open>
  C4, as stated, fails: a line that occurs twice in a source file is sent twice, and the
  generator pairs it again. With the user file \<open>dup.txt\<close> (two lines \<open>a\<close>) and the
  password \<open>x\<close> the pair \<open>(a, x)\<close> is emitted twice.
\<close>

theorem buildCredentialPairs_repeats_counterexample:
  "buildCredentialPairs (userChan exFiles cfgDup None) (passChan exFiles cfgDup None)
     (UserFirst cfgDup)
   = [\<lparr>user = ''a'', pass = ''x''\<rparr>, \<lparr>user = ''a'', pass = ''x''\<rparr>]"
  by (simp add: stream_eval exFiles_def cfgDup_def buildCredentialPairs_def Let_def)

text \<open>
  C4, amended. Under either strategy the pair \<open>(u, p)\<close> is emitted as many times as the
  product of the number of occurrences of \<open>u\<close> in the user stream and of \<open>p\<close> in the
  password stream; so when neither stream repeats a candidate, no pair is emitted twice.
\<close>

theorem buildCredentialPairs_multiplicity:
  "count_list (buildCredentialPairs us ps b) \<lparr>user = u, pass = p\<rparr>
     = count_list us u * count_list ps p \<and>
   (distinct us \<and> distinct ps \<longrightarrow> distinct (buildCredentialPairs us ps b))"
proof -
  have c: "count_list (buildCredentialPairs us ps b) \<lparr>user = u', pass = p'\<rparr>
     = count_list us u' * count_list ps p'" for u' p'
    by (simp add: buildCredentialPairs_def count_userFirstLoop count_passFirstLoop)
  have "distinct (buildCredentialPairs us ps b)" if d: "distinct us" "distinct ps"
  proof (rule count_le_distinct)
    fix x :: Credential
    obtain u' p' where x: "x = \<lparr>user = u', pass = p'\<rparr>" by (cases x) simp
    have "count_list us u' * count_list ps p' \<le> 1 * 1"
      using d by (intro mult_le_mono distinct_count_le)
    with c [of u' p'] x show "count_list (buildCredentialPairs us ps b) x \<le> 1" by simp
  qed
  with c show ?thesis by simp
qed

theorem buildCredentialPairs_multiplicity_witness:
  "distinct (buildCredentialPairs [''i1'', ''i2''] [''s1'', ''s2''] False)"
proof -
  have d: "distinct [''i1'', ''i2''] \<and> distinct [''s1'', ''s2'']" by simp
  show ?thesis
    by (rule buildCredentialPairs_multiplicity
          [of "[''i1'', ''i2'']" "[''s1'', ''s2'']" False "[]" "[]", THEN conjunct2, THEN mp])
       (rule d)
qed

section \<open>Properties of the progress estimate\<close>

lemma countLoop_eq:
  "countLoop c ts = c + of_nat (length (filter (\<lambda>t. TrimSpace t \<noteq> []) ts))"
  by (induction ts arbitrary: c) simp_all

lemma countLines_eq:
  assumes "files f = Some content"
  shows "countLines files f = of_nat (countedLines content)"
proof -
  have "countLines files f = countLoop 0 (linesBeforeLong content)"
    using assms by (simp add: countLines_def countLoop_scanLines)
  then show ?thesis by (simp add: countedLines_def countLoop_eq)
qed

lemma countedLines_all_short:
  assumes "\<forall>l\<in>set (fileLines content). length l < MaxScanTokenSize"
  shows "countedLines content = nonBlankLines content"
proof -
  have "linesBeforeLong content = fileLines content"
    using assms by (simp add: linesBeforeLong_def)
  then show ?thesis by (simp add: countedLines_def nonBlankLines_def)
qed

lemma sint64_of_nat: "n < 2 ^ 63 \<Longrightarrow> sint (of_nat n :: 64 word) = int n"
proof -
  assume n: "n < 2 ^ 63"
  have "(of_nat n :: 64 word) = word_of_int (int n)" by simp
  then have "sint (of_nat n :: 64 word) = (int n + 2 ^ 63) mod 2 ^ 64 - 2 ^ 63"
    by (simp only: int_word_sint) simp
  moreover from n have "int n < 2 ^ 63" by (metis of_nat_less_iff of_nat_numeral of_nat_power)
  ultimately show ?thesis by simp
qed

lemma fileLines_replicate:
  "fileLines (concat (replicate n ''a\<newline>'')) = replicate n ''a''"
  unfolding fileLines_def by (induction n) simp_all

lemma TrimSpace_a: "TrimSpace ''a'' = ''a''"
  by (simp add: stream_eval)

lemma nonBlankLines_replicate: "nonBlankLines (concat (replicate n ''a\<newline>'')) = n"
  by (simp add: nonBlankLines_def fileLines_replicate TrimSpace_a)

lemma countedLines_replicate: "countedLines (concat (replicate n ''a\<newline>'')) = n"
proof -
  have "\<forall>l\<in>set (fileLines (concat (replicate n ''a\<newline>''))). length l < MaxScanTokenSize"
    by (simp add: fileLines_replicate MaxScanTokenSize_def)
  then show ?thesis by (simp add: countedLines_all_short nonBlankLines_replicate)
qed

lemma word64_square_2_32: "(of_nat ((2::nat) ^ 32 * 2 ^ 32) :: 64 word) = 0"
proof -
  have "(2::nat) ^ 32 * 2 ^ 32 = 2 ^ 64" by (simp only: power_add [symmetric]) simp
  then have "(of_nat ((2::nat) ^ 32 * 2 ^ 32) :: 64 word) = 2 ^ 64"
    by (simp only: of_nat_power of_nat_numeral)
  also have "(2 ^ 64 :: 64 word) = 0" by simp
  finally show ?thesis .
qed

lemma long_counts: "nonBlankLines longContent = 3 \<and> countedLines longContent = 1"
proof -
  have "0 < MaxScanTokenSize" by (simp add: MaxScanTokenSize_def)
  then have a: "TrimSpace (replicate MaxScanTokenSize CHR ''a'') \<noteq> []"
    by (rule TrimSpace_replicate_a)
  have x: "TrimSpace ''x'' = ''x''" and b: "TrimSpace ''b'' = ''b''"
    by (simp_all add: TrimSpace_def trimLeftSpace.simps trimRightSpace.simps spaceRunes_def
        suffix_to_prefix)
  show ?thesis
    by (simp add: nonBlankLines_def countedLines_def fileLines_long linesBeforeLong_long a x b)
qed

text \<open>
  C10, as stated, fails in two ways. Where the product leaves the range of a 64-bit
  \<open>int\<close> it wraps: for a file of \<open>2 ^ 32\<close> non-blank lines given as user list and as
  password list, the estimate is \<open>0\<close> and not \<open>2 ^ 64\<close>. And \<open>countLines\<close> stops at a line
  of \<open>bufio.MaxScanTokenSize\<close> bytes or more: for a literal user and the password file
  \<open>long.txt\<close> of three non-blank lines the estimate is \<open>1\<close>.
\<close>

theorem totalTests_wraps_counterexample:
  "nonBlankLines bigContent = 2 ^ 32 \<and> sint (totalTests bigFiles cfgBig) = 0 \<and>
   nonBlankLines longContent = 3 \<and> totalTests longFiles cfgLong = 1"
proof -
  have n: "nonBlankLines bigContent = 2 ^ 32"
    unfolding bigContent_def by (rule nonBlankLines_replicate)
  have "countedLines bigContent = 2 ^ 32"
    unfolding bigContent_def by (rule countedLines_replicate)
  then have c: "countLines bigFiles ''big.txt'' = of_nat (2 ^ 32)"
    using countLines_eq [of bigFiles "''big.txt''" bigContent] by (simp add: bigFiles_def)
  have "totalTests bigFiles cfgBig = of_nat (2 ^ 32) * of_nat (2 ^ 32)"
    by (simp add: totalTests_def cfgBig_def c del: of_nat_power of_nat_numeral)
  also have "\<dots> = (of_nat ((2::nat) ^ 32 * 2 ^ 32) :: 64 word)" by (simp only: of_nat_mult)
  also have "\<dots> = 0" by (rule word64_square_2_32)
  finally have w: "sint (totalTests bigFiles cfgBig) = 0" by simp
  have "countLines longFiles ''long.txt'' = of_nat (countedLines longContent)"
    by (rule countLines_eq) (simp add: longFiles_def)
  then have l: "totalTests longFiles cfgLong = 1"
    by (simp add: totalTests_def cfgLong_def long_counts)
  from n w long_counts l show ?thesis by simp
qed

text \<open>
  C10, amended. The estimate is \<open>1\<close> for a literal user with a literal password. For a
  literal user with a password file it is \<open>N\<close>, and for a user file with a password file
  it is \<open>M * N\<close>, where \<open>M\<close> and \<open>N\<close> count the non-blank lines of the file that come
  before its first line of \<open>bufio.MaxScanTokenSize\<close> bytes or more (all its non-blank
  lines when it has no such line); both are reduced to a 64-bit \<open>int\<close>: the signed
  value is the count itself whenever the count is below \<open>2 ^ 63\<close>.
\<close>

theorem totalTests_estimate:
  "(SingleUser cfg \<noteq> [] \<and> SinglePass cfg \<noteq> [] \<longrightarrow> totalTests files cfg = 1) \<and>
   (SingleUser cfg \<noteq> [] \<and> SinglePass cfg = [] \<and> PassList cfg \<noteq> [] \<and>
    files (PassList cfg) = Some pc \<longrightarrow>
      totalTests files cfg = of_nat (countedLines pc) \<and>
      (countedLines pc < 2 ^ 63 \<longrightarrow> sint (totalTests files cfg) = int (countedLines pc))) \<and>
   (SingleUser cfg = [] \<and> UserList cfg \<noteq> [] \<and> SinglePass cfg = [] \<and> PassList cfg \<noteq> [] \<and>
    files (UserList cfg) = Some uc \<and> files (PassList cfg) = Some pc \<longrightarrow>
      totalTests files cfg = of_nat (countedLines uc * countedLines pc) \<and>
      (countedLines uc * countedLines pc < 2 ^ 63 \<longrightarrow>
         sint (totalTests files cfg) = int (countedLines uc * countedLines pc))) \<and>
   ((\<forall>l\<in>set (fileLines pc). length l < MaxScanTokenSize) \<longrightarrow>
      countedLines pc = nonBlankLines pc)"
proof (intro conjI impI)
  assume "SingleUser cfg \<noteq> [] \<and> SinglePass cfg \<noteq> []"
  then show "totalTests files cfg = 1" by (simp add: totalTests_def)
next
  assume a: "SingleUser cfg \<noteq> [] \<and> SinglePass cfg = [] \<and> PassList cfg \<noteq> [] \<and>
    files (PassList cfg) = Some pc"
  then show t: "totalTests files cfg = of_nat (countedLines pc)"
    by (simp add: totalTests_def countLines_eq)
  assume "countedLines pc < 2 ^ 63"
  then show "sint (totalTests files cfg) = int (countedLines pc)"
    by (simp only: t sint64_of_nat)
next
  assume a: "SingleUser cfg = [] \<and> UserList cfg \<noteq> [] \<and> SinglePass cfg = [] \<and>
    PassList cfg \<noteq> [] \<and> files (UserList cfg) = Some uc \<and> files (PassList cfg) = Some pc"
  then show t: "totalTests files cfg = of_nat (countedLines uc * countedLines pc)"
    by (simp add: totalTests_def countLines_eq)
  assume "countedLines uc * countedLines pc < 2 ^ 63"
  then show "sint (totalTests files cfg) = int (countedLines uc * countedLines pc)"
    by (simp only: t sint64_of_nat)
next
  assume "\<forall>l\<in>set (fileLines pc). length l < MaxScanTokenSize"
  then show "countedLines pc = nonBlankLines pc" by (rule countedLines_all_short)
qed

lemma countedLines_streamLoop:
  "countedLines content = length (streamLoop (linesBeforeLong content))"
  by (simp add: countedLines_def streamLoop_filter filter_map comp_def)

lemma exFiles_counts:
  "countedLines ''u1\<newline>  u2 \<newline>\<newline>u3'' = 3"
  "countedLines (''s1'' @ [CHR 0x0D] @ ''\<newline>s2\<newline>'') = 2"
  by (simp_all add: countedLines_streamLoop stream_eval)

theorem totalTests_estimate_witness:
  "totalTests exFiles cfgLL = 1 \<and> sint (totalTests exFiles cfgLF) = 2 \<and>
   sint (totalTests exFiles cfgFF) = 6 \<and>
   nonBlankLines (''s1'' @ [CHR 0x0D] @ ''\<newline>s2\<newline>'') = 2"
proof -
  have ll: "SingleUser cfgLL \<noteq> [] \<and> SinglePass cfgLL \<noteq> []" by (simp add: cfgLL_def)
  have lf: "SingleUser cfgLF \<noteq> [] \<and> SinglePass cfgLF = [] \<and> PassList cfgLF \<noteq> [] \<and>
    exFiles (PassList cfgLF) = Some (''s1'' @ [CHR 0x0D] @ ''\<newline>s2\<newline>'')"
    by (simp add: cfgLF_def exFiles_def)
  have ff: "SingleUser cfgFF = [] \<and> UserList cfgFF \<noteq> [] \<and> SinglePass cfgFF = [] \<and>
    PassList cfgFF \<noteq> [] \<and> exFiles (UserList cfgFF) = Some ''u1\<newline>  u2 \<newline>\<newline>u3'' \<and>
    exFiles (PassList cfgFF) = Some (''s1'' @ [CHR 0x0D] @ ''\<newline>s2\<newline>'')"
    by (simp add: cfgFF_def exFiles_def)
  have short: "\<forall>l\<in>set (fileLines (''s1'' @ [CHR 0x0D] @ ''\<newline>s2\<newline>'')).
      length l < MaxScanTokenSize"
    by (simp add: fileLines_def MaxScanTokenSize_def)
  have "totalTests exFiles cfgLL = 1"
    by (rule totalTests_estimate [of cfgLL exFiles "[]" "[]", THEN conjunct1, THEN mp]) (rule ll)
  moreover
  have "sint (totalTests exFiles cfgLF)
      = int (countedLines (''s1'' @ [CHR 0x0D] @ ''\<newline>s2\<newline>''))"
    using totalTests_estimate [of cfgLF exFiles "''s1'' @ [CHR 0x0D] @ ''\<newline>s2\<newline>''" "[]",
        THEN conjunct2, THEN conjunct1, THEN mp, OF lf, THEN conjunct2]
    by (simp only: exFiles_counts) simp
  moreover
  have "sint (totalTests exFiles cfgFF)
      = int (countedLines ''u1\<newline>  u2 \<newline>\<newline>u3''
             * countedLines (''s1'' @ [CHR 0x0D] @ ''\<newline>s2\<newline>''))"
    using totalTests_estimate [of cfgFF exFiles "''s1'' @ [CHR 0x0D] @ ''\<newline>s2\<newline>''"
        "''u1\<newline>  u2 \<newline>\<newline>u3''",
        THEN conjunct2, THEN conjunct2, THEN conjunct1, THEN mp, OF ff, THEN conjunct2]
    by (simp only: exFiles_counts) simp
  moreover
  have "countedLines (''s1'' @ [CHR 0x0D] @ ''\<newline>s2\<newline>'')
      = nonBlankLines (''s1'' @ [CHR 0x0D] @ ''\<newline>s2\<newline>'')"
    by (rule totalTests_estimate [of cfgLF exFiles "''s1'' @ [CHR 0x0D] @ ''\<newline>s2\<newline>''" "[]",
        THEN conjunct2, THEN conjunct2, THEN conjunct2, rule_format])
       (rule short [rule_format])
  ultimately show ?thesis by (simp only: exFiles_counts) simp
qed

section \<open>Properties of the scheduler\<close>

text \<open>Equations for evaluating a schedule.\<close>

lemmas pool_eval = start_def setPc_def logAccess_def Let_def threePairs_def numeral_2_eq_2
  step_def cancel_def returnLoop_def send_def release_def

lemma threePairs_built:
  "buildCredentialPairs (userChan exFiles cfgFirst None) (passChan exFiles cfgFirst None)
     (UserFirst cfgFirst) = threePairs"
  by (simp add: stream_eval exFiles_def cfgFirst_def buildCredentialPairs_def Let_def threePairs_def)

lemma run_invariant:
  assumes pres: "\<And>e s s'. P s \<Longrightarrow> step cfg e s = Some s' \<Longrightarrow> P s'"
  shows "P s \<Longrightarrow> run cfg es s = Some s' \<Longrightarrow> P s'"
proof (induction es arbitrary: s)
  case Nil
  then show ?case by simp
next
  case (Cons e es)
  from Cons.prems(2) obtain t where t: "step cfg e s = Some t" and r: "run cfg es t = Some s'"
    by (auto split: option.splits)
  from pres [OF Cons.prems(1) t] have "P t" .
  then show ?case using r by (rule Cons.IH)
qed

lemma filter_update_same:
  "i < length xs \<Longrightarrow> P (xs ! i) = P y \<Longrightarrow>
   length (filter P (xs[i := y])) = length (filter P xs)"
  by (induction xs arbitrary: i) (auto simp: nth_Cons' split: nat.splits)

lemma filter_update_drop:
  "i < length xs \<Longrightarrow> P (xs ! i) \<Longrightarrow> \<not> P y \<Longrightarrow>
   Suc (length (filter P (xs[i := y]))) = length (filter P xs)"
  by (induction xs arbitrary: i) (auto simp: nth_Cons' filter_update_same split: nat.splits)

lemma run_single: "run cfg [e] s = step cfg e s"
  by (cases "step cfg e s") simp_all

lemma step_act: "step cfg e s = Some s' \<Longrightarrow> act cfg e s = Some s'"
  by (simp add: step_def split: if_splits)

text \<open>What \<open>cancel\<close>, \<open>returnLoop\<close>, \<open>send\<close> and \<open>release\<close> leave unchanged.\<close>

lemma cancel_fields [simp]:
  "workers (cancel s) = workers s" "semaphore (cancel s) = semaphore s"
  "mu (cancel s) = mu s" "accesses (cancel s) = accesses s" "cancelled (cancel s)"
  "slotTaken (loopAt (cancel s)) = slotTaken (loopAt s)"
  "(loopAt (cancel s) = Returned) = (loopAt s = Returned)"
  by (simp_all add: cancel_def split: dispatch.splits)

lemma returnLoop_fields [simp]:
  "workers (returnLoop s) = workers s" "semaphore (returnLoop s) = semaphore s"
  "mu (returnLoop s) = mu s" "accesses (returnLoop s) = accesses s"
  "cancelled (returnLoop s) = cancelled s" "loopAt (returnLoop s) = Returned"
  by (simp_all add: returnLoop_def)

lemma send_fields:
  assumes "send cfg r s = Some t"
  shows "workers t = workers s" "semaphore t = semaphore s" "mu t = mu s"
    "accesses t = accesses s" "cancelled t = cancelled s" "loopAt t = loopAt s"
  using assms by (auto simp: send_def split: if_splits)

lemma release_fields:
  assumes "release s = Some t"
  shows "workers t = workers s" "mu t = mu s" "accesses t = accesses s"
    "cancelled t = cancelled s"
  using assms by (auto simp: release_def split: dispatch.splits if_splits)

lemma release_slots:
  assumes "release s = Some t"
  shows "Suc (semaphore t + slotTaken (loopAt s)) = semaphore s + slotTaken (loopAt t)"
    and "semaphore t \<le> semaphore s"
  using assms by (auto simp: release_def split: dispatch.splits if_splits)

subsection \<open>Admission control\<close>

lemma runWorker_slotsInv:
  assumes "runWorker cfg i r c p s = Some s'"
    and "i < length (workers s)" and "snd (workers s ! i) = p"
    and "slotsInv cfg s"
  shows "slotsInv cfg s'"
proof (cases p)
  case AtRelease
  with assms(1) obtain t where t: "release s = Some t" and s': "s' = setPc i Exited t"
    by (auto split: option.splits)
  have w: "workers t = workers s" using t by (rule release_fields)
  have "Suc (inFlight s') = inFlight s"
    unfolding inFlight_def s' setPc_def using assms(2,3) AtRelease w
    by (simp add: filter_update_drop)
  moreover have "semaphore s' = semaphore t" "loopAt s' = loopAt t"
    by (simp_all add: s' setPc_def)
  ultimately show ?thesis
    using assms(4) release_slots [OF t] unfolding slotsInv_def by arith
next
  case Exited
  with assms show ?thesis by simp
next
  case (PostLocked result)
  show ?thesis
  proof (cases "FirstOnly cfg \<and> \<not> successFound s")
    case True
    with assms PostLocked show ?thesis
      by (auto simp: slotsInv_def inFlight_def setPc_def logAccess_def Let_def
          filter_update_same)
  next
    case False
    define s1 where "s1 = (if FirstOnly cfg then logAccess i SuccessFlag s else s)"
    have s1: "workers s1 = workers s" "semaphore s1 = semaphore s" "loopAt s1 = loopAt s"
      "successFound s1 = successFound s"
      by (simp_all add: s1_def logAccess_def)
    from assms(1) PostLocked False obtain s2 where s2: "send cfg result s1 = Some s2"
      and s': "s' = (if panicked s2 then s2 else setPc i AtSave (s2\<lparr>mu := None\<rparr>))"
      by (auto simp: Let_def s1_def logAccess_def split: option.splits if_splits)
    note f = send_fields [OF s2]
    show ?thesis
    proof (cases "panicked s2")
      case True
      with s' f s1 assms(4) show ?thesis by (simp add: slotsInv_def inFlight_def)
    next
      case False
      with s' f s1 assms(2,3,4) PostLocked show ?thesis
        by (simp add: slotsInv_def inFlight_def setPc_def filter_update_same)
    qed
  qed
qed (use assms in \<open>auto simp: slotsInv_def inFlight_def setPc_def logAccess_def Let_def
      filter_update_same split: if_splits\<close>)

lemma step_slotsInv: "slotsInv cfg s \<Longrightarrow> step cfg e s = Some s' \<Longrightarrow> slotsInv cfg s'"
proof (cases e)
  case (Run i r)
  assume "slotsInv cfg s" "step cfg e s = Some s'"
  with Run show ?thesis
    by (auto simp: step_def split: if_splits intro: runWorker_slotsInv)
qed (auto simp: step_def slotsInv_def inFlight_def
      split: dispatch.splits collector.splits list.splits if_splits)

lemma start_slotsInv: "slotsInv cfg (start pairs)"
  by (simp add: slotsInv_def inFlight_def start_def)

lemma inTrial_le_inFlight: "inTrial s \<le> inFlight s"
proof -
  have "filter (\<lambda>w. snd w = AtTrial) (workers s)
      = filter (\<lambda>w. snd w = AtTrial) (filter (\<lambda>w. snd w \<noteq> Exited) (workers s))"
    by (auto intro: filter_cong)
  then show ?thesis
    unfolding inTrial_def inFlight_def by (metis length_filter_le)
qed

text \<open>
  C2. In every state that a run reaches, under every schedule, the workers inside
  \<open>testLogin\<close> are among the workers that hold an admission slot, and these are at most
  \<open>cfg.Workers\<close>; when all slots are taken the admission case of the \<open>select\<close> is not
  ready, so the next pair is admitted only after a worker has released its slot.
\<close>

theorem inFlight_bounded:
  assumes "run cfg schedule (start pairs) = Some s"
  shows "inTrial s \<le> inFlight s \<and> inFlight s \<le> Workers cfg \<and>
         (inFlight s = Workers cfg \<longrightarrow> step cfg Admit s = None)"
proof -
  have "slotsInv cfg s"
    using step_slotsInv start_slotsInv assms by (rule run_invariant)
  then show ?thesis
    by (auto simp: slotsInv_def step_def inTrial_le_inFlight split: dispatch.splits)
qed

theorem inFlight_bounded_witness:
  "\<exists>s. run cfgTwo fullSchedule (start threePairs) = Some s \<and>
     inTrial s = 2 \<and> inFlight s = 2 \<and> step cfgTwo Admit s = None"
proof -
  obtain s where s: "run cfgTwo fullSchedule (start threePairs) = Some s"
    by (simp add: pool_eval fullSchedule_def cfgTwo_def)
  have w: "Workers cfgTwo = 2" by (simp add: cfgTwo_def)
  from s have n: "inFlight s = 2" "inTrial s = 2"
    by (auto simp: pool_eval fullSchedule_def cfgTwo_def inFlight_def inTrial_def)
  with inFlight_bounded [OF s] w have "step cfgTwo Admit s = None" by simp
  with s n show ?thesis by (intro exI [of _ s] conjI)
qed

subsection \<open>The mutex\<close>

lemma runWorker_lockInv:
  assumes "runWorker cfg i r c p s = Some s'"
    and "i < length (workers s)" and "snd (workers s ! i) = p"
    and "lockInv s"
  shows "lockInv s'"
proof -
  from assms(2,3,4) have "holdsLock p = (mu s = Some i)"
    by (auto simp: lockInv_def)
  with assms show ?thesis
    by (cases p)
       (auto simp: lockInv_def setPc_def logAccess_def Let_def nth_list_update
         send_def release_def
         split: if_splits option.splits dispatch.splits)
qed

lemma step_lockInv: "lockInv s \<Longrightarrow> step cfg e s = Some s' \<Longrightarrow> lockInv s'"
proof (cases e)
  case (Run i r)
  assume "lockInv s" "step cfg e s = Some s'"
  with Run show ?thesis
    by (auto simp: step_def split: if_splits intro: runWorker_lockInv)
next
  case Admit
  assume "lockInv s" "step cfg e s = Some s'"
  with Admit show ?thesis
    by (auto simp: step_def lockInv_def nth_append less_Suc_eq
        split: dispatch.splits if_splits)
qed (auto simp: step_def lockInv_def
      split: dispatch.splits collector.splits list.splits if_splits)

lemma runWorker_accessesOk:
  assumes "runWorker cfg i r c p s = Some s'"
    and "i < length (workers s)" and "snd (workers s ! i) = p"
    and "lockInv s" and "accessesOk s"
  shows "accessesOk s'"
proof -
  from assms(2,3,4) have "holdsLock p = (mu s = Some i)"
    by (auto simp: lockInv_def)
  with assms(1,5) show ?thesis
    by (cases p)
       (auto simp: accessesOk_def setPc_def logAccess_def Let_def send_def release_def
         split: if_splits option.splits dispatch.splits)
qed

lemma step_accessesOk:
  "lockInv s \<and> accessesOk s \<Longrightarrow> step cfg e s = Some s' \<Longrightarrow> lockInv s' \<and> accessesOk s'"
proof (cases e)
  case (Run i r)
  assume a: "lockInv s \<and> accessesOk s" "step cfg e s = Some s'"
  with step_lockInv have "lockInv s'" by blast
  moreover from a Run have "accessesOk s'"
    by (auto simp: step_def split: if_splits intro: runWorker_accessesOk)
  ultimately show ?thesis ..
next
  case Admit
  assume a: "lockInv s \<and> accessesOk s" "step cfg e s = Some s'"
  with step_lockInv have "lockInv s'" by blast
  moreover from a Admit have "accessesOk s'"
    by (auto simp: step_def accessesOk_def split: dispatch.splits if_splits)
  ultimately show ?thesis ..
qed (auto simp: step_def lockInv_def accessesOk_def
      split: dispatch.splits collector.splits list.splits if_splits)

lemma start_accessesOk: "lockInv (start pairs) \<and> accessesOk (start pairs)"
  by (simp add: lockInv_def accessesOk_def start_def)

text \<open>
  C7, as stated, fails for the checkpoint: \<open>saveState\<close> is called after \<open>mu.Unlock()\<close>
  and takes no lock itself. In \<open>saveSchedule\<close> worker 0 writes \<open>state.json\<close> while
  worker 1 holds \<open>mu\<close>.
\<close>

theorem saveState_outside_lock_counterexample:
  "map_option accesses (run cfgTwo saveSchedule (start threePairs))
     = Some [\<lparr>who = 0, what = Checkpoint, holder = Some 1\<rparr>]"
  by (simp add: pool_eval saveSchedule_def cfgTwo_def)

text \<open>
  C7, amended. In every run, every access of a worker to \<open>successFound\<close> is made while
  that worker holds \<open>mu\<close>, and every write of the checkpoint by \<open>saveState\<close> is made
  while that worker does not hold \<open>mu\<close>.
\<close>

theorem flag_locked_checkpoint_unlocked:
  assumes "run cfg schedule (start pairs) = Some s"
  shows "\<forall>a\<in>set (accesses s).
           (what a = SuccessFlag \<longrightarrow> holder a = Some (who a)) \<and>
           (what a = Checkpoint \<longrightarrow> holder a \<noteq> Some (who a))"
proof -
  have "lockInv s \<and> accessesOk s"
    using step_accessesOk start_accessesOk assms by (rule run_invariant)
  then show ?thesis by (simp add: accessesOk_def)
qed

theorem flag_locked_checkpoint_unlocked_witness:
  "\<exists>s. run cfgFirst lockSchedule (start threePairs) = Some s \<and>
     map what (accesses s) = [SuccessFlag, SuccessFlag, Checkpoint] \<and>
     holder (accesses s ! 0) = Some (who (accesses s ! 0)) \<and>
     holder (accesses s ! 2) \<noteq> Some (who (accesses s ! 2))"
proof -
  obtain s where s: "run cfgFirst lockSchedule (start threePairs) = Some s"
    by (simp add: pool_eval lockSchedule_def cfgFirst_def)
  then have w: "map what (accesses s) = [SuccessFlag, SuccessFlag, Checkpoint]"
    by (auto simp: pool_eval lockSchedule_def cfgFirst_def)
  then have len: "length (accesses s) = 3"
    by (metis length_map length_Cons list.size(3) numeral_3_eq_3)
  from w have w0: "what (accesses s ! 0) = SuccessFlag" and w2: "what (accesses s ! 2) = Checkpoint"
    using len by (metis nth_map nth_Cons_0 zero_less_numeral, 
                  metis nth_map nth_Cons_0 nth_Cons_Suc numeral_2_eq_2 lessI numeral_3_eq_3)
  have m0: "accesses s ! 0 \<in> set (accesses s)" and m2: "accesses s ! 2 \<in> set (accesses s)"
    using len by simp_all
  from flag_locked_checkpoint_unlocked [OF s, rule_format, OF m0] w0
  have "holder (accesses s ! 0) = Some (who (accesses s ! 0))" by simp
  moreover
  from flag_locked_checkpoint_unlocked [OF s, rule_format, OF m2] w2
  have "holder (accesses s ! 2) \<noteq> Some (who (accesses s ! 2))" by simp
  ultimately show ?thesis using s w by (intro exI [of _ s] conjI)
qed

subsection \<open>First success only\<close>


text \<open>
  A collecting loop that has not executed its \<open>select\<close> before the first success finds
  both cases ready afterwards and may take the results: in \<open>raceSchedule\<close> it prints the
  two later successes.
\<close>

lemma firstOnly_collector_not_blocked:
  "map_option stdout (run cfgFirst raceSchedule (start threePairs))
     = Some [''Success: u1'', ''Success: u2'', ''Success: u3'']"
  by (simp add: pool_eval raceSchedule_def cfgFirst_def)

subsection \<open>Cancellation\<close>






end
